theory Spec2Isabelle
  imports Main "HOL-Library.Word" "HOL-Library.Char_ord" "HOL-Library.List_Lexorder"
begin

unbundle bit_operations_syntax

section \<open>The shared memory pool (src/Pool.cc)\<close>

text \<open>
  \<^verbatim>\<open>size_t\<close> and \<^verbatim>\<open>uint64_t\<close> are 64-bit unsigned integers; arithmetic on them
  wraps around.
\<close>

type_synonym size_t = "64 word"

definition PAGE_SIZE :: size_t where
  "PAGE_SIZE = 4096"

text \<open>
  What the member functions throw:
  \<^item> \<open>CannotOpen\<close>: \<^verbatim>\<open>cannot_open_file(name)\<close>;
  \<^item> \<open>MmapFailed\<close>: \<^verbatim>\<open>runtime_error("mmap failed: ...")\<close>;
  \<^item> \<open>CannotResize\<close>: \<^verbatim>\<open>runtime_error("can't resize memory map: ...")\<close>;
  \<^item> \<open>ExceedsMax\<close>: \<^verbatim>\<open>runtime_error("can't expand pool beyond maximum size")\<close>.
\<close>

datatype pool_error = CannotOpen | MmapFailed | CannotResize | ExceedsMax

text \<open>
  A call returns, throws, or dies of a fault of the memory system: a store through the
  mapping to a page past the end of the segment raises \<^verbatim>\<open>SIGBUS\<close>.
\<close>

datatype 'a outcome = Returns 'a | Throws pool_error | Faults

text \<open>
  The named segment is an object of the operating system that every attached process
  shares: \<open>st_size\<close> is its length (\<^verbatim>\<open>fstat(fd).st_size\<close>, set by \<^verbatim>\<open>ftruncate\<close>), and
  \<open>data_size\<close> is the field \<^verbatim>\<open>size\<close> of the \<^verbatim>\<open>Data\<close> header at offset 0 of its bytes,
  which the code reads and writes as \<^verbatim>\<open>this->data->size\<close> through its mapping.
\<close>

record segment =
  st_size :: size_t
  data_size :: size_t

text \<open>The system calls that change a mapping or the segment, as the code issues them.\<close>

datatype syscall =
  Ftruncate size_t
  | Munmap size_t size_t
  | Mmap size_t

text \<open>
  One process's \<^verbatim>\<open>Pool\<close> object. \<open>data\<close> is the address of the mapping and \<open>pool_size\<close>
  the length it was mapped with. \<open>syscalls\<close> is not a field of the class: it records, oldest
  first, the calls of \<^verbatim>\<open>ftruncate\<close>, \<^verbatim>\<open>munmap\<close> and \<^verbatim>\<open>mmap\<close> made through the object, so
  that "the view was re-mapped" is a statement about the state.
\<close>

record pool =
  name :: string
  max_size :: size_t
  pool_size :: size_t
  data :: size_t
  syscalls :: "syscall list"

text \<open>
  What the operating system answers: the descriptor returned by
  \<^verbatim>\<open>open_segment(O_RDWR | O_CREAT | O_EXCL)\<close> when the name is free, the descriptor returned by
  \<^verbatim>\<open>open_segment(O_RDWR)\<close>, the return value of \<^verbatim>\<open>ftruncate\<close> and the address returned by
  \<^verbatim>\<open>mmap\<close>.
\<close>

record os =
  open_excl_ret :: int
  open_ret :: int
  ftruncate_ret :: int
  mmap_ret :: size_t

text \<open>
  The constructor. \<open>ns\<close> is what the name denotes before the call: \<open>None\<close> when no segment
  of that name exists, so that the exclusive create does not fail with \<^verbatim>\<open>EEXIST\<close>. A failed
  create leaves the descriptor at -1, on which \<^verbatim>\<open>ftruncate\<close> fails. The result holds the
  new object, or the exception, and what the name denotes afterwards.
\<close>

definition Pool_ctor ::
  "os \<Rightarrow> string \<Rightarrow> size_t \<Rightarrow> segment option \<Rightarrow> pool outcome \<times> segment option" where
  "Pool_ctor sys nm mx ns =
     (case ns of
        Some seg \<Rightarrow>
          if open_ret sys = - 1 then (Throws CannotOpen, ns)
          else
            let p = \<lparr>name = nm, max_size = mx, pool_size = st_size seg, data = mmap_ret sys,
                     syscalls = [Mmap (st_size seg)]\<rparr>
            in if data p = 0 then (Throws MmapFailed, ns) else (Returns p, ns)
      | None \<Rightarrow>
          if open_excl_ret sys = - 1 \<or> ftruncate_ret sys \<noteq> 0 then (Throws CannotResize, None)
          else
            let p = \<lparr>name = nm, max_size = mx, pool_size = PAGE_SIZE, data = mmap_ret sys,
                     syscalls = [Ftruncate PAGE_SIZE, Mmap PAGE_SIZE]\<rparr>
            in if data p = 0 then (Throws MmapFailed, None)
               else (Returns p, Some \<lparr>st_size = PAGE_SIZE, data_size = pool_size p\<rparr>))"

text \<open>
  \<^verbatim>\<open>check_size_and_remap\<close> is \<^verbatim>\<open>const\<close>: it changes the (mutable) fields of the object and
  never the segment. When \<^verbatim>\<open>mmap\<close> returns a null pointer it throws after \<open>pool_size\<close> and
  \<open>data\<close> have been overwritten, so the object is returned in both cases.
\<close>

definition check_size_and_remap :: "os \<Rightarrow> pool \<Rightarrow> segment \<Rightarrow> unit outcome \<times> pool" where
  "check_size_and_remap sys p seg =
     (let new_pool_size = (if pool_size p \<noteq> 0 then data_size seg else st_size seg)
      in if new_pool_size \<noteq> pool_size p then
           let p' = p\<lparr>pool_size := new_pool_size, data := mmap_ret sys,
                      syscalls := syscalls p @ [Munmap (data p) (pool_size p), Mmap new_pool_size]\<rparr>
           in if data p' = 0 then (Throws MmapFailed, p') else (Returns (), p')
         else (Returns (), p))"

text \<open>The rounding of \<^verbatim>\<open>expand\<close>: \<^verbatim>\<open>(new_size + PAGE_SIZE - 1) & (~(PAGE_SIZE - 1))\<close>.\<close>

definition round_up_page :: "size_t \<Rightarrow> size_t" where
  "round_up_page new_size = (new_size + PAGE_SIZE - 1) AND NOT (PAGE_SIZE - 1)"

text \<open>
  \<^verbatim>\<open>expand\<close>. A rounded size of 0 (the sum wrapped, for \<open>new_size\<close> above \<open>2^64 - 4096\<close>, or
  \<open>new_size\<close> is 0) makes \<^verbatim>\<open>ftruncate\<close> empty the segment; the store \<^verbatim>\<open>data->size = new_size\<close>
  then goes to a page past its end and the process dies there, the header lost with the
  segment's bytes.
\<close>

definition expand :: "os \<Rightarrow> size_t \<Rightarrow> pool \<Rightarrow> segment \<Rightarrow> unit outcome \<times> pool \<times> segment" where
  "expand sys new_size p seg =
     (if new_size < pool_size p then (Returns (), p, seg)
      else
        let new_size' = round_up_page new_size
        in if max_size p \<noteq> 0 \<and> new_size' > max_size p then (Throws ExceedsMax, p, seg)
           else
             let p1 = p\<lparr>syscalls := syscalls p @ [Ftruncate new_size']\<rparr>
             in if ftruncate_ret sys \<noteq> 0 then (Throws CannotResize, p1, seg)
                else if new_size' = 0 then (Faults, p1, seg\<lparr>st_size := 0, data_size := 0\<rparr>)
                else
                  let seg' = seg\<lparr>st_size := new_size', data_size := new_size'\<rparr>;
                      (r, p2) = check_size_and_remap sys p1 seg'
                  in (r, p2, seg'))"

text \<open>\<^verbatim>\<open>Pool::size\<close> returns \<^verbatim>\<open>this->data->size\<close>.\<close>

definition size_pool :: "pool \<Rightarrow> segment \<Rightarrow> size_t" where
  "size_pool p seg = data_size seg"

text \<open>An operating system on which every call succeeds; \<^verbatim>\<open>mmap\<close> answers some address.\<close>

definition os_ok :: os where
  "os_ok = \<lparr>open_excl_ret = 3, open_ret = 3, ftruncate_ret = 0, mmap_ret = 0x7f0000000000\<rparr>"

text \<open>
  Two processes on one segment, as states that the operations above produce (see
  \<open>two_processes_run\<close> and \<open>capped_process_run\<close> below). Process A creates the segment, process
  B attaches to it; B expands it to 16384 bytes; then A, whose mapping is still one page,
  expands it to 8192 bytes, which \<^verbatim>\<open>ftruncate\<close> makes the segment's new, smaller length.
\<close>

definition seg_4k :: segment where
  "seg_4k = \<lparr>st_size = 4096, data_size = 4096\<rparr>"

definition seg_16k :: segment where
  "seg_16k = \<lparr>st_size = 16384, data_size = 16384\<rparr>"

definition seg_8k :: segment where
  "seg_8k = \<lparr>st_size = 8192, data_size = 8192\<rparr>"

definition procA_4k :: pool where
  "procA_4k = \<lparr>name = ''pool'', max_size = 0, pool_size = 4096, data = 0x7f0000000000,
                syscalls = [Ftruncate 4096, Mmap 4096]\<rparr>"

definition procA_8k :: pool where
  "procA_8k = \<lparr>name = ''pool'', max_size = 0, pool_size = 8192, data = 0x7f0000000000,
                syscalls = [Ftruncate 4096, Mmap 4096, Ftruncate 8192,
                            Munmap 0x7f0000000000 4096, Mmap 8192]\<rparr>"

definition procB_4k :: pool where
  "procB_4k = \<lparr>name = ''pool'', max_size = 0, pool_size = 4096, data = 0x7f0000000000,
                syscalls = [Mmap 4096]\<rparr>"

definition procB_16k :: pool where
  "procB_16k = \<lparr>name = ''pool'', max_size = 0, pool_size = 16384, data = 0x7f0000000000,
                 syscalls = [Mmap 4096, Ftruncate 16384, Munmap 0x7f0000000000 4096, Mmap 16384]\<rparr>"

text \<open>A third process that attaches to the 16384-byte segment with \<open>max_size\<close> 8192.\<close>

definition procC_capped :: pool where
  "procC_capped = \<lparr>name = ''pool'', max_size = 8192, pool_size = 16384, data = 0x7f0000000000,
                    syscalls = [Mmap 16384]\<rparr>"

section \<open>The prefix tree\<close>

text \<open>
  Modelled from the spec: PrefixTree.cc and PrefixTree.hh are not among the sources; only
  src/PrefixTreeTest.cc, which calls the tree, is. The model follows the spec's data model
  (section 3 and 4.3): a node has an optional value slot and a sparse map from the next
  key byte to a child; a value is a tagged variant. Where the spec's words leave the node
  layout open ("paths like \<open>a \<rightarrow> b \<rightarrow> (c)\<close>"), the model takes the layout that the
  node counts of the spec's scenarios S1, S2 and S3 and the comments of
  src/PrefixTreeTest.cc show for inserted keys: the parenthesised entries of those
  comments are values held in the parent's child slot, not nodes of their own, so a child
  slot holds either a value or a child node.
\<close>

type_synonym key = string

text \<open>
  Modelled from the spec: the tagged variant of section 3 (the test's \<^verbatim>\<open>LookupResult\<close>). An
  \<^verbatim>\<open>int64_t\<close> is a 64-bit word; a \<^verbatim>\<open>double\<close> is kept as its 64 bits, on which the model
  computes nothing.
\<close>

datatype variant = NullV | BoolV bool | IntV "64 word" | DoubleV "64 word" | StringV string

text \<open>
  Modelled from the spec: a child slot, holding the value of the key that ends at this
  byte or the node of the keys that go on; and a node, with its value slot and its child
  slots by key byte.
\<close>

datatype 'n slot = Inline variant | Child 'n

datatype node = Node (node_value: "variant option") (children: "(char \<times> node slot) list")

text \<open>
  Modelled from the spec: writing and clearing the child slot of a byte. The sparse map
  is a list of the occupied slots in the order of their bytes.
\<close>

fun put_slot :: "char \<Rightarrow> 'a \<Rightarrow> (char \<times> 'a) list \<Rightarrow> (char \<times> 'a) list" where
  "put_slot c s [] = [(c, s)]"
| "put_slot c s ((d, t) # cs) =
     (if c < d then (c, s) # (d, t) # cs
      else if c = d then (c, s) # cs
      else (d, t) # put_slot c s cs)"

definition clear_slot :: "char \<Rightarrow> (char \<times> 'a) list \<Rightarrow> (char \<times> 'a) list" where
  "clear_slot c cs = filter (\<lambda>(d, t). d \<noteq> c) cs"

text \<open>Modelled from the spec: a freshly created tree is its root node alone.\<close>

definition empty_tree :: node where
  "empty_tree = Node None []"

text \<open>
  Modelled from the spec: \<open>at(key)\<close> walks the key byte by byte; \<open>None\<close> is the NotFound
  failure (the test's \<^verbatim>\<open>out_of_range\<close>).
\<close>

fun at :: "node \<Rightarrow> key \<Rightarrow> variant option" where
  "at (Node w cs) [] = w"
| "at (Node w cs) (c # k) =
     (case map_of cs c of
        None \<Rightarrow> None
      | Some (Inline u) \<Rightarrow> if k = [] then Some u else None
      | Some (Child n) \<Rightarrow> at n k)"

text \<open>
  Modelled from the spec: \<open>insert(key, value)\<close> walks the key byte by byte, creating child
  nodes as needed, and inserts or overwrites. The value of the empty key is the root's
  value slot; the value of a key with no node of its own is held in the slot of its last
  byte; a value held in a slot moves into the value slot of the node that a longer key
  creates there.
\<close>

fun insert_key :: "key \<Rightarrow> variant \<Rightarrow> node \<Rightarrow> node" where
  "insert_key [] v (Node w cs) = Node (Some v) cs"
| "insert_key (c # k) v (Node w cs) =
     Node w (put_slot c
       (case map_of cs c of
          Some (Child n) \<Rightarrow> Child (insert_key k v n)
        | Some (Inline u) \<Rightarrow>
            if k = [] then Inline v else Child (insert_key k v (Node (Some u) []))
        | None \<Rightarrow>
            if k = [] then Inline v else Child (insert_key k v (Node None []))) cs)"

text \<open>
  Modelled from the spec: the compaction step of \<open>erase\<close> on the way back to the root
  (section 4.3): a node that now has no value and zero children is freed and its slot in
  the parent cleared; a node that has a value or a child stays, and the walk stops there.
\<close>

definition compact_child ::
  "char \<Rightarrow> node \<Rightarrow> (char \<times> node slot) list \<Rightarrow> (char \<times> node slot) list" where
  "compact_child c n cs =
     (if node_value n = None \<and> children n = [] then clear_slot c cs
      else put_slot c (Child n) cs)"

text \<open>
  Modelled from the spec: \<open>erase(key)\<close> removes the key if present, then compacts, and
  returns whether a removal occurred. The root is never freed.
\<close>

fun erase :: "key \<Rightarrow> node \<Rightarrow> bool \<times> node" where
  "erase [] (Node w cs) = (w \<noteq> None, Node None cs)"
| "erase (c # k) (Node w cs) =
     (case map_of cs c of
        None \<Rightarrow> (False, Node w cs)
      | Some (Inline u) \<Rightarrow>
          if k = [] then (True, Node w (clear_slot c cs)) else (False, Node w cs)
      | Some (Child n) \<Rightarrow>
          (case erase k n of
             (False, n') \<Rightarrow> (False, Node w cs)
           | (True, n') \<Rightarrow> (True, Node w (compact_child c n' cs))))"

text \<open>Modelled from the spec: \<open>node_size()\<close> counts the live nodes, the root included.\<close>

fun node_size :: "node \<Rightarrow> nat" where
  "node_size (Node w cs) =
     1 + sum_list (map (\<lambda>(c, s). case s of Inline u \<Rightarrow> 0 | Child n \<Rightarrow> node_size n) cs)"

text \<open>Modelled from the spec: \<open>size()\<close> counts the keys.\<close>

fun size_tree :: "node \<Rightarrow> nat" where
  "size_tree (Node w cs) =
     (case w of None \<Rightarrow> 0 | Some v \<Rightarrow> 1)
     + sum_list (map (\<lambda>(c, s). case s of Inline u \<Rightarrow> 1 | Child n \<Rightarrow> size_tree n) cs)"

text \<open>
  Modelled from the spec: \<open>iterate()\<close> goes depth first, left to right by child byte; a
  node's own value comes before the keys below it.
\<close>

fun iterate :: "node \<Rightarrow> (key \<times> variant) list" where
  "iterate (Node w cs) =
     (case w of None \<Rightarrow> [] | Some v \<Rightarrow> [([], v)])
     @ concat (map (\<lambda>(c, s). case s of
                      Inline u \<Rightarrow> [([c], u)]
                    | Child n \<Rightarrow> map (\<lambda>(k, v). (c # k, v)) (iterate n)) cs)"

text \<open>Modelled from the spec: \<open>clear()\<close> removes all keys; the result is a fresh tree.\<close>

definition clear :: "node \<Rightarrow> node" where
  "clear t = empty_tree"

text \<open>
  The states the tree can reach: what a sequence of the mutating calls makes of a fresh
  tree. By the spec \<open>incr\<close> creates or overwrites the value of a key, as \<open>insert\<close> does, or
  fails, so it reaches no state that an \<open>Insert\<close> does not.
\<close>

datatype op =
  Insert key variant
  | Erase key
  | Clear

fun apply_op :: "node \<Rightarrow> op \<Rightarrow> node" where
  "apply_op t (Insert k v) = insert_key k v t"
| "apply_op t (Erase k) = snd (erase k t)"
| "apply_op t Clear = clear t"

definition run :: "op list \<Rightarrow> node" where
  "run ops = foldl apply_op empty_tree ops"

text \<open>
  The live pairs, following the spec's words: an inserted pair is live until its key is
  erased or overwritten, and \<open>clear\<close> removes all keys.
\<close>

fun live_op :: "(key \<rightharpoonup> variant) \<Rightarrow> op \<Rightarrow> (key \<rightharpoonup> variant)" where
  "live_op m (Insert k v) = m(k \<mapsto> v)"
| "live_op m (Erase k) = m(k := None)"
| "live_op m Clear = Map.empty"

definition live :: "op list \<Rightarrow> (key \<rightharpoonup> variant)" where
  "live ops = foldl live_op Map.empty ops"

text \<open>
  The calls of \<^verbatim>\<open>run_basic_test\<close> (scenario S1) and the inserts of \<^verbatim>\<open>run_types_test\<close>
  (scenario S3; the double 2.38 as its 64 bits).
\<close>

definition basic_test :: "op list" where
  "basic_test =
     [Insert ''key1'' (StringV ''value1''),
      Insert ''key2'' (StringV ''value2''),
      Insert ''key3'' (StringV ''value3''),
      Erase ''key2'',
      Erase ''key2'',
      Insert ''key1'' (StringV ''value0''),
      Erase ''key1'',
      Erase ''key3'']"

definition types_test :: "op list" where
  "types_test =
     [Insert ''key-string'' (StringV ''value-string''),
      Insert ''key-int'' (IntV (- 3145728)),
      Insert ''key-int-long'' (IntV 0x9999999999999999),
      Insert ''key-double'' (DoubleV 0x40030A3D70A3D70A),
      Insert ''key-true'' (BoolV True),
      Insert ''key-false'' (BoolV False),
      Insert ''key-null'' NullV]"

subsection \<open>The shape of a reachable tree\<close>

text \<open>
  The slots of a node are in strictly ascending order of their bytes, and a child node
  has a value or at least one slot: a node with neither is freed.
\<close>

definition in_use :: "node \<Rightarrow> bool" where
  "in_use n = (node_value n \<noteq> None \<or> children n \<noteq> [])"

fun wf_node :: "node \<Rightarrow> bool" where
  "wf_node (Node w cs) =
     (sorted_wrt (<) (map fst cs)
      \<and> (\<forall>(c, s) \<in> set cs. case s of Inline u \<Rightarrow> True | Child n \<Rightarrow> in_use n \<and> wf_node n))"

definition wf_slot :: "node slot \<Rightarrow> bool" where
  "wf_slot s = (case s of Inline u \<Rightarrow> True | Child n \<Rightarrow> in_use n \<and> wf_node n)"

text \<open>What a slot contributes to a lookup and to the iteration.\<close>

definition at_slot :: "node slot option \<Rightarrow> key \<Rightarrow> variant option" where
  "at_slot s l =
     (case s of
        None \<Rightarrow> None
      | Some (Inline u) \<Rightarrow> if l = [] then Some u else None
      | Some (Child n) \<Rightarrow> at n l)"

definition slot_entries :: "char \<Rightarrow> node slot \<Rightarrow> (key \<times> variant) list" where
  "slot_entries c s =
     (case s of
        Inline u \<Rightarrow> [([c], u)]
      | Child n \<Rightarrow> map (\<lambda>(k, v). (c # k, v)) (iterate n))"

section \<open>Theorems about the pool\<close>

subsection \<open>The page rounding\<close>

lemma and_not_mask12: "(x :: 64 word) AND NOT (mask 12) = push_bit 12 (drop_bit 12 x)"
  by (rule bit_eqI) (auto simp: bit_simps)

lemma unat_round_down: "unat ((x :: 64 word) AND NOT 4095) = unat x - unat x mod 4096"
proof -
  have m: "(4095 :: 64 word) = mask 12"
    by (simp add: mask_eq_exp_minus_1)
  have lt: "unat x < 2 ^ 64"
    using unsigned_less [of x] by simp
  have le: "unat x div 4096 * 4096 \<le> unat x"
    by simp
  have "unat (x div 4096 * 4096) = (unat (x div 4096) * 4096) mod 2 ^ 64"
    by (simp add: unat_word_ariths)
  also have "unat (x div 4096) = unat x div 4096"
    by (simp add: unat_div)
  also have "(unat x div 4096 * 4096) mod 2 ^ 64 = unat x div 4096 * 4096"
    using lt le by simp
  finally have "unat (x div 4096 * 4096) = unat x - unat x mod 4096"
    by (simp add: minus_mod_eq_div_mult)
  moreover have "x AND NOT 4095 = x div 4096 * 4096"
    unfolding m and_not_mask12 by (simp add: push_bit_eq_mult drop_bit_eq_div)
  ultimately show ?thesis
    by (simp only:)
qed

lemma unat_round_up_page:
  "unat (round_up_page n) = unat (n + 4095) - unat (n + 4095) mod 4096"
proof -
  have "round_up_page n = (n + 4095) AND NOT 4095"
    by (simp add: round_up_page_def PAGE_SIZE_def add.commute)
  then show ?thesis
    by (simp only: unat_round_down)
qed

lemma round_up_page_multiple: "unat (round_up_page n) mod 4096 = 0"
  unfolding unat_round_up_page by (simp add: minus_mod_eq_div_mult)

lemma round_up_page_bounds:
  assumes "unat n \<le> 2 ^ 64 - 4096"
  shows "unat n \<le> unat (round_up_page n) \<and> unat (round_up_page n) < unat n + 4096"
proof -
  have e: "unat (n + 4095) = unat n + 4095"
    using assms by (simp add: unat_word_ariths)
  have "(unat n + 4095) mod 4096 < 4096" and "(unat n + 4095) mod 4096 \<le> unat n + 4095"
    by simp_all
  then show ?thesis
    unfolding unat_round_up_page e by linarith
qed

text \<open>Past \<open>2^64 - 4096\<close> the addition wraps and the rounded size is 0.\<close>

lemma round_up_page_wraps: "round_up_page 0xFFFFFFFFFFFFFFFF = 0"
  by (simp add: round_up_page_def PAGE_SIZE_def)

text \<open>
  There \<open>expand\<close> passes the test against \<open>max_size\<close>, empties the segment and dies at the
  store into the header.
\<close>

lemma expand_wraps_faults:
  "expand os_ok 0xFFFFFFFFFFFFFFFF procC_capped seg_16k
     = (Faults, procC_capped\<lparr>syscalls := syscalls procC_capped @ [Ftruncate 0]\<rparr>,
        \<lparr>st_size = 0, data_size = 0\<rparr>)"
  by (simp add: expand_def round_up_page_def PAGE_SIZE_def os_ok_def procC_capped_def seg_16k_def)

subsection \<open>The two-process runs\<close>

lemma two_processes_run:
  "Pool_ctor os_ok ''pool'' 0 None = (Returns procA_4k, Some seg_4k)"
  "Pool_ctor os_ok ''pool'' 0 (Some seg_4k) = (Returns procB_4k, Some seg_4k)"
  "expand os_ok 16384 procB_4k seg_4k = (Returns (), procB_16k, seg_16k)"
  "expand os_ok 8192 procA_4k seg_16k = (Returns (), procA_8k, seg_8k)"
  by (simp_all add: Pool_ctor_def expand_def check_size_and_remap_def round_up_page_def
      PAGE_SIZE_def os_ok_def seg_4k_def seg_16k_def seg_8k_def procA_4k_def procA_8k_def
      procB_4k_def procB_16k_def Let_def)

lemma capped_process_run:
  "Pool_ctor os_ok ''pool'' 8192 (Some seg_16k) = (Returns procC_capped, Some seg_16k)"
  by (simp add: Pool_ctor_def os_ok_def seg_16k_def procC_capped_def Let_def)

subsection \<open>The claims\<close>

text \<open>
  C10. For every pool and every \<open>new_size\<close> strictly smaller than the process's mapped
  \<open>pool_size\<close>, \<open>expand new_size\<close> returns without an error and without any effect: no
  system call is made, the segment (its length and the header's size field) is unchanged,
  and the object, with its mapping, is unchanged.
\<close>

theorem expand_smaller_is_noop:
  assumes "new_size < pool_size p"
  shows "expand sys new_size p seg = (Returns (), p, seg)"
  using assms by (simp add: expand_def)

theorem expand_smaller_is_noop_witness:
  "(100 :: size_t) < pool_size \<lparr>name = ''n'', max_size = 0, pool_size = 4096, data = 8, syscalls = []\<rparr>
   \<and> expand os_ok 100 \<lparr>name = ''n'', max_size = 0, pool_size = 4096, data = 8, syscalls = []\<rparr>
        \<lparr>st_size = 8192, data_size = 8192\<rparr>
      = (Returns (), \<lparr>name = ''n'', max_size = 0, pool_size = 4096, data = 8, syscalls = []\<rparr>,
         \<lparr>st_size = 8192, data_size = 8192\<rparr>)"
proof -
  have h: "(100 :: size_t) < pool_size \<lparr>name = ''n'', max_size = 0, pool_size = 4096, data = 8, syscalls = []\<rparr>"
    by simp
  show ?thesis
    using h expand_smaller_is_noop [OF h] by simp
qed

text \<open>
  C1 (amended). \<open>Pool::size()\<close> returns the size recorded in the shared pool header
  (\<^verbatim>\<open>data->size\<close>), not the length \<open>pool_size\<close> of this process's mapping. The two agree
  after this process's own \<open>check_size_and_remap\<close> (when \<open>pool_size\<close> is not 0); and once
  another process has expanded the segment, \<open>size()\<close> in this process is already the new,
  rounded size, which is the expanding process's new \<open>pool_size\<close>.
\<close>

theorem size_pool_reads_header:
  "size_pool p seg = data_size seg
   \<and> (pool_size p \<noteq> 0 \<longrightarrow>
        size_pool (snd (check_size_and_remap sys p seg)) seg
          = pool_size (snd (check_size_and_remap sys p seg)))
   \<and> (pool_size q \<le> new_size \<and> expand sys new_size q seg = (Returns (), q', seg') \<longrightarrow>
        size_pool p seg' = round_up_page new_size \<and> pool_size q' = size_pool p seg')"
  by (auto simp: size_pool_def check_size_and_remap_def expand_def Let_def
      split: if_splits prod.splits)

theorem size_pool_reads_header_witness:
  "size_pool procA_4k seg_4k = data_size seg_4k
   \<and> pool_size procA_4k \<noteq> 0
   \<and> size_pool (snd (check_size_and_remap os_ok procA_4k seg_4k)) seg_4k
          = pool_size (snd (check_size_and_remap os_ok procA_4k seg_4k))
   \<and> pool_size procB_4k \<le> 16384
   \<and> expand os_ok 16384 procB_4k seg_4k = (Returns (), procB_16k, seg_16k)
   \<and> size_pool procA_4k seg_16k = round_up_page 16384
   \<and> pool_size procB_16k = size_pool procA_4k seg_16k"
proof -
  have a: "pool_size procA_4k \<noteq> 0"
    by (simp add: procA_4k_def)
  have b: "pool_size procB_4k \<le> 16384"
    by (simp add: procB_4k_def)
  have c: "expand os_ok 16384 procB_4k seg_4k = (Returns (), procB_16k, seg_16k)"
    by (simp add: expand_def check_size_and_remap_def round_up_page_def PAGE_SIZE_def os_ok_def
      seg_4k_def seg_16k_def procB_4k_def procB_16k_def Let_def)
  show ?thesis
    using a b c
      size_pool_reads_header [where p = procA_4k and seg = seg_4k and sys = os_ok
        and q = procB_4k and new_size = 16384 and q' = procB_16k and seg' = seg_16k]
    by simp
qed

text \<open>
  C1 as stated fails: \<open>size()\<close> would be the size this process has mapped, lagging behind
  the header. After process B has expanded the segment to 16384 bytes, process A, whose
  mapping is still 4096 bytes long, gets 16384 from \<open>size()\<close>: the header's value, which it
  does not lag behind.
\<close>

theorem size_pool_counterexample:
  "expand os_ok 16384 procB_4k seg_4k = (Returns (), procB_16k, seg_16k)
   \<and> size_pool procA_4k seg_16k \<noteq> pool_size procA_4k
   \<and> size_pool procA_4k seg_16k = 16384
   \<and> pool_size procA_4k = 4096
   \<and> \<not> size_pool procA_4k seg_16k < data_size seg_16k"
  by (simp add: expand_def check_size_and_remap_def round_up_page_def PAGE_SIZE_def os_ok_def
      size_pool_def seg_4k_def seg_16k_def procA_4k_def procB_4k_def procB_16k_def Let_def)

text \<open>
  C2 (amended). \<open>check_size_and_remap\<close> compares this process's \<open>pool_size\<close> to the size
  recorded in the pool header, or to the segment's length when \<open>pool_size\<close> is 0. It un-maps
  the old view and maps the new size exactly when the two differ (larger or smaller);
  when they are equal it returns with the object, and so the mapping, unchanged.
\<close>

theorem check_size_and_remap_iff_differs:
  "(let new_pool_size = (if pool_size p \<noteq> 0 then data_size seg else st_size seg);
        p' = snd (check_size_and_remap sys p seg)
    in (new_pool_size \<noteq> pool_size p \<longrightarrow>
          p' = p\<lparr>pool_size := new_pool_size, data := mmap_ret sys,
                 syscalls := syscalls p @ [Munmap (data p) (pool_size p), Mmap new_pool_size]\<rparr>)
       \<and> (new_pool_size = pool_size p \<longrightarrow> check_size_and_remap sys p seg = (Returns (), p))
       \<and> (syscalls p' \<noteq> syscalls p \<longleftrightarrow> new_pool_size \<noteq> pool_size p))"
  by (simp add: check_size_and_remap_def Let_def)

theorem check_size_and_remap_iff_differs_witness:
  "(if pool_size procB_16k \<noteq> 0 then data_size seg_8k else st_size seg_8k) \<noteq> pool_size procB_16k
   \<and> snd (check_size_and_remap os_ok procB_16k seg_8k)
       = procB_16k\<lparr>pool_size := 8192, data := mmap_ret os_ok,
            syscalls := syscalls procB_16k @ [Munmap (data procB_16k) (pool_size procB_16k), Mmap 8192]\<rparr>
   \<and> (if pool_size procB_16k \<noteq> 0 then data_size seg_16k else st_size seg_16k) = pool_size procB_16k
   \<and> check_size_and_remap os_ok procB_16k seg_16k = (Returns (), procB_16k)"
  using check_size_and_remap_iff_differs [of procB_16k seg_8k os_ok]
    check_size_and_remap_iff_differs [of procB_16k seg_16k os_ok]
  by (simp add: Let_def seg_8k_def seg_16k_def procB_16k_def)

text \<open>
  C2 as stated fails: the view would be re-mapped only when the recorded size is larger.
  After B has grown the segment to 16384 bytes and A has then set it to 8192, the header's
  size is smaller than B's \<open>pool_size\<close>, and \<open>check_size_and_remap\<close> in B un-maps its 16384
  bytes and maps 8192.
\<close>

theorem check_size_and_remap_counterexample:
  "expand os_ok 16384 procB_4k seg_4k = (Returns (), procB_16k, seg_16k)
   \<and> expand os_ok 8192 procA_4k seg_16k = (Returns (), procA_8k, seg_8k)
   \<and> \<not> pool_size procB_16k < data_size seg_8k
   \<and> check_size_and_remap os_ok procB_16k seg_8k
       = (Returns (), procB_16k\<lparr>pool_size := 8192,
            syscalls := syscalls procB_16k @ [Munmap (data procB_16k) 16384, Mmap 8192]\<rparr>)"
  by (simp add: expand_def check_size_and_remap_def round_up_page_def PAGE_SIZE_def os_ok_def
      seg_4k_def seg_16k_def seg_8k_def procA_4k_def procA_8k_def procB_4k_def procB_16k_def Let_def)

text \<open>
  C5 (amended). For \<open>new_size\<close> not below the process's \<open>pool_size\<close> and at most
  \<open>2^64 - 4096\<close>, \<open>expand\<close> rounds \<open>new_size\<close> up to the least multiple of the page size that
  is at least \<open>new_size\<close>, and throws ExceedsMax, leaving the object and the segment as they
  were, exactly when \<open>max_size\<close> is set (not 0) and the rounded size exceeds it. For
  \<open>new_size\<close> below \<open>pool_size\<close> it returns without an error and without an effect, whatever
  \<open>max_size\<close> is. With \<open>max_size\<close> unset it never throws ExceedsMax. (What a pool with
  \<open>max_size\<close> set does for a \<open>new_size\<close> above \<open>2^64 - 4096\<close> and not below \<open>pool_size\<close>, where
  the sum wraps, is not part of the statement.)
\<close>

theorem expand_exceeds_max_iff:
  "(pool_size p \<le> new_size \<and> unat new_size \<le> 2 ^ 64 - 4096 \<longrightarrow>
      unat (round_up_page new_size) mod 4096 = 0
      \<and> unat new_size \<le> unat (round_up_page new_size)
      \<and> unat (round_up_page new_size) < unat new_size + 4096
      \<and> (fst (expand sys new_size p seg) = Throws ExceedsMax
            \<longleftrightarrow> max_size p \<noteq> 0 \<and> max_size p < round_up_page new_size)
      \<and> (max_size p \<noteq> 0 \<and> max_size p < round_up_page new_size
            \<longrightarrow> expand sys new_size p seg = (Throws ExceedsMax, p, seg)))
   \<and> (new_size < pool_size p \<longrightarrow> expand sys new_size p seg = (Returns (), p, seg))
   \<and> (max_size p = 0 \<longrightarrow> fst (expand sys new_size p seg) \<noteq> Throws ExceedsMax)"
proof -
  have chk: "fst (check_size_and_remap sys q sg) \<noteq> Throws ExceedsMax" for q sg
    by (simp add: check_size_and_remap_def Let_def)
  have 1: "pool_size p \<le> new_size \<Longrightarrow>
      (fst (expand sys new_size p seg) = Throws ExceedsMax
         \<longleftrightarrow> max_size p \<noteq> 0 \<and> max_size p < round_up_page new_size)"
    using chk by (auto simp: expand_def Let_def split: prod.splits)
       (metis fst_conv)+
  have 2: "pool_size p \<le> new_size \<Longrightarrow> max_size p \<noteq> 0 \<and> max_size p < round_up_page new_size
      \<Longrightarrow> expand sys new_size p seg = (Throws ExceedsMax, p, seg)"
    by (simp add: expand_def Let_def)
  have 3: "new_size < pool_size p \<Longrightarrow> expand sys new_size p seg = (Returns (), p, seg)"
    by (simp add: expand_def)
  have 4: "max_size p = 0 \<Longrightarrow> fst (expand sys new_size p seg) \<noteq> Throws ExceedsMax"
    using chk by (auto simp: expand_def Let_def split: prod.splits) (metis fst_conv)+
  show ?thesis
    using 1 2 3 4 round_up_page_multiple [of new_size] round_up_page_bounds [of new_size]
    by blast
qed

theorem expand_exceeds_max_iff_witness:
  "pool_size procC_capped \<le> 20000
   \<and> unat (20000 :: size_t) \<le> 2 ^ 64 - 4096
   \<and> unat (round_up_page 20000) = 20480
   \<and> max_size procC_capped \<noteq> 0 \<and> max_size procC_capped < round_up_page 20000
   \<and> expand os_ok 20000 procC_capped seg_16k = (Throws ExceedsMax, procC_capped, seg_16k)
   \<and> 10000 < pool_size procC_capped
   \<and> expand os_ok 10000 procC_capped seg_16k = (Returns (), procC_capped, seg_16k)
   \<and> max_size procA_4k = 0
   \<and> fst (expand os_ok 8192 procA_4k seg_16k) \<noteq> Throws ExceedsMax"
proof -
  have r: "round_up_page 20000 = 20480"
    by (simp add: round_up_page_def PAGE_SIZE_def)
  have a: "pool_size procC_capped \<le> 20000" "max_size procC_capped \<noteq> 0"
    "max_size procC_capped < round_up_page 20000" "10000 < pool_size procC_capped"
    "max_size procA_4k = 0" "unat (20000 :: size_t) \<le> 2 ^ 64 - 4096"
    by (simp_all add: r procC_capped_def procA_4k_def)
  show ?thesis
    using a expand_exceeds_max_iff [of procC_capped 20000 os_ok seg_16k]
      expand_exceeds_max_iff [of procC_capped 10000 os_ok seg_16k]
      expand_exceeds_max_iff [of procA_4k 8192 os_ok seg_16k]
    by (simp add: r)
qed

text \<open>
  C5 as stated fails: with \<open>max_size\<close> set, \<open>expand\<close> would throw exactly when the rounded
  size exceeds it. A process attached with \<open>max_size = 8192\<close> to a segment of 16384 bytes
  calls \<open>expand(10000)\<close>: the rounded size 12288 exceeds \<open>max_size\<close>, and the call returns
  without an error, because 10000 is below its \<open>pool_size\<close>.
\<close>

theorem expand_exceeds_max_counterexample:
  "Pool_ctor os_ok ''pool'' 8192 (Some seg_16k) = (Returns procC_capped, Some seg_16k)
   \<and> max_size procC_capped \<noteq> 0
   \<and> max_size procC_capped < round_up_page 10000
   \<and> expand os_ok 10000 procC_capped seg_16k = (Returns (), procC_capped, seg_16k)
   \<and> fst (expand os_ok 10000 procC_capped seg_16k) \<noteq> Throws ExceedsMax"
  by (simp add: Pool_ctor_def expand_def round_up_page_def PAGE_SIZE_def os_ok_def
      seg_16k_def procC_capped_def Let_def)

section \<open>Theorems about the prefix tree\<close>

subsection \<open>Slots\<close>

lemma map_of_put_slot: "map_of (put_slot c s cs) = (map_of cs)(c \<mapsto> s)"
  by (induction cs) (auto simp: fun_eq_iff)

lemma map_of_clear_slot: "map_of (clear_slot c cs) = (map_of cs)(c := None)"
  by (induction cs) (auto simp: clear_slot_def fun_eq_iff)

lemma set_put_slot: "set (put_slot c s cs) \<subseteq> insert (c, s) (set cs)"
  by (induction cs) (auto split: if_splits)

lemma fst_set_put_slot: "fst ` set (put_slot c s cs) = insert c (fst ` set cs)"
proof -
  have "fst ` set (put_slot c s cs) = dom (map_of (put_slot c s cs))"
    by (simp add: dom_map_of_conv_image_fst)
  also have "\<dots> = insert c (dom (map_of cs))"
    by (simp add: map_of_put_slot)
  finally show ?thesis
    by (simp add: dom_map_of_conv_image_fst)
qed

lemma sorted_put_slot:
  "sorted_wrt (<) (map fst cs) \<Longrightarrow> sorted_wrt (<) (map fst (put_slot c s cs))"
proof (induction cs)
  case Nil
  then show ?case by simp
next
  case (Cons a cs)
  obtain d t where a: "a = (d, t)" by (cases a)
  show ?case
    using Cons fst_set_put_slot [of c s cs] unfolding a
    by auto
qed

lemma sorted_clear_slot:
  "sorted_wrt (<) (map fst cs) \<Longrightarrow> sorted_wrt (<) (map fst (clear_slot c cs))"
  by (induction cs) (auto simp: clear_slot_def)

lemma put_slot_not_Nil: "put_slot c s cs \<noteq> []"
  by (cases cs) (auto split: if_splits)

subsection \<open>Lookup after insert and erase\<close>

lemma at_Cons: "at (Node w cs) (c # l) = at_slot (map_of cs c) l"
  by (simp add: at_slot_def)

lemma at_no_children: "children n = [] \<Longrightarrow> at n k = (if k = [] then node_value n else None)"
  by (cases n; cases k) auto

lemma at_slot_simps:
  "at_slot None l = None"
  "at_slot (Some (Inline u)) l = (if l = [] then Some u else None)"
  "at_slot (Some (Child n)) l = at n l"
  by (simp_all add: at_slot_def)

lemma at_slot_compact_child:
  "at_slot (map_of (compact_child c n cs) d) l = (if d = c then at n l else at_slot (map_of cs d) l)"
  by (auto simp: compact_child_def map_of_put_slot map_of_clear_slot at_slot_simps at_no_children)

lemma at_insert_key: "at (insert_key k v t) k' = (if k' = k then Some v else at t k')"
proof (induction k v t arbitrary: k' rule: insert_key.induct)
  case (1 v w cs)
  then show ?case by (cases k') auto
next
  case (2 c k v w cs)
  show ?case
  proof (cases k')
    case Nil
    then show ?thesis by simp
  next
    case (Cons d l)
    then show ?thesis
      using 2 by (auto simp: map_of_put_slot at_no_children split: option.splits slot.splits)
  qed
qed

lemma fst_erase: "fst (erase k t) \<longleftrightarrow> at t k \<noteq> None"
  by (induction k t rule: erase.induct)
     (auto split: option.splits slot.splits prod.splits bool.splits)

lemma at_erase: "at (snd (erase k t)) k' = (if k' = k then None else at t k')"
proof (induction k t arbitrary: k' rule: erase.induct)
  case (1 w cs)
  then show ?case by (cases k') auto
next
  case (2 c k w cs)
  show ?case
  proof (cases k')
    case Nil
    then show ?thesis
      by (auto split: option.splits slot.splits prod.splits bool.splits)
  next
    case (Cons d l)
    show ?thesis
    proof (cases "map_of cs c")
      case None
      then show ?thesis
        using Cons by (auto simp: at_slot_simps)
    next
      case (Some s)
      show ?thesis
      proof (cases s)
        case (Inline u)
        then show ?thesis
          using Some Cons by (auto simp: map_of_clear_slot)
      next
        case (Child n)
        obtain b n' where e: "erase k n = (b, n')"
          by (cases "erase k n")
        have ih: "at n' l' = (if l' = k then None else at n l')" for l'
          using "2.IH" [OF Some Child, of l'] e by simp
        have b: "b \<longleftrightarrow> at n k \<noteq> None"
          using fst_erase [of k n] e by simp
        show ?thesis
        proof (cases b)
          case True
          then have "erase (c # k) (Node w cs) = (True, Node w (compact_child c n' cs))"
            using Some Child e by simp
          then show ?thesis
            using Cons Some Child ih
            by (simp add: at_Cons at_slot_compact_child at_slot_simps del: at.simps)
        next
          case False
          then have "erase (c # k) (Node w cs) = (False, Node w cs)"
            using Some Child e by simp
          then show ?thesis
            using Cons Some Child b False by auto
        qed
      qed
    qed
  qed
qed

subsection \<open>The shape is kept\<close>

lemma wf_node_iff:
  "wf_node (Node w cs) \<longleftrightarrow> sorted_wrt (<) (map fst cs) \<and> (\<forall>(c, s) \<in> set cs. wf_slot s)"
  by (simp add: wf_slot_def)

lemma wf_put_slot:
  "wf_node (Node w cs) \<Longrightarrow> wf_slot s \<Longrightarrow> wf_node (Node w' (put_slot c s cs))"
  unfolding wf_node_iff using set_put_slot [of c s cs] by (auto simp: sorted_put_slot)

lemma wf_clear_slot:
  "wf_node (Node w cs) \<Longrightarrow> wf_node (Node w' (clear_slot c cs))"
  unfolding wf_node_iff by (auto simp: sorted_clear_slot) (auto simp: clear_slot_def)

lemma wf_map_of:
  "wf_node (Node w cs) \<Longrightarrow> map_of cs c = Some s \<Longrightarrow> wf_slot s"
  unfolding wf_node_iff by (auto dest: map_of_SomeD)

lemma in_use_insert_key: "in_use (insert_key k v t)"
  by (cases k; cases t) (auto simp: in_use_def put_slot_not_Nil)

lemma wf_insert_key: "wf_node t \<Longrightarrow> wf_node (insert_key k v t)"
proof (induction k v t rule: insert_key.induct)
  case (1 v w cs)
  then show ?case by simp
next
  case (2 c k v w cs)
  let ?s = "case map_of cs c of
          Some (Child n) \<Rightarrow> Child (insert_key k v n)
        | Some (Inline u) \<Rightarrow>
            if k = [] then Inline v else Child (insert_key k v (Node (Some u) []))
        | None \<Rightarrow>
            if k = [] then Inline v else Child (insert_key k v (Node None []))"
  have "wf_slot ?s"
  proof (cases "map_of cs c")
    case None
    then show ?thesis
      using "2.IH" by (auto simp: wf_slot_def in_use_insert_key)
  next
    case (Some s)
    show ?thesis
    proof (cases s)
      case (Inline u)
      then show ?thesis
        using Some "2.IH" by (auto simp: wf_slot_def in_use_insert_key)
    next
      case (Child n)
      have "wf_slot (Child n)"
        using wf_map_of [OF "2.prems"] Some Child by simp
      then have "wf_node n"
        by (simp add: wf_slot_def)
      then have "wf_node (insert_key k v n)"
        using "2.IH"(3) [OF Some Child] by simp
      then show ?thesis
        using Some Child by (simp add: wf_slot_def in_use_insert_key)
    qed
  qed
  then show ?case
    using wf_put_slot [OF "2.prems"] by (simp del: wf_node.simps)
qed

lemma wf_compact_child:
  "wf_node (Node w cs) \<Longrightarrow> wf_node n \<Longrightarrow> wf_node (Node w (compact_child c n cs))"
  by (auto simp: compact_child_def wf_slot_def in_use_def intro!: wf_put_slot wf_clear_slot
      simp del: wf_node.simps)

lemma wf_erase: "wf_node t \<Longrightarrow> wf_node (snd (erase k t))"
proof (induction k t rule: erase.induct)
  case (1 w cs)
  then show ?case by simp
next
  case (2 c k w cs)
  show ?case
  proof (cases "map_of cs c")
    case None
    then show ?thesis using "2.prems" by simp
  next
    case (Some s)
    show ?thesis
    proof (cases s)
      case (Inline u)
      then show ?thesis
        using Some "2.prems" wf_clear_slot [OF "2.prems", of w c]
        by (simp del: wf_node.simps)
    next
      case (Child n)
      obtain b n' where e: "erase k n = (b, n')"
        by (cases "erase k n")
      have "wf_slot (Child n)"
        using wf_map_of [OF "2.prems"] Some Child by simp
      then have "wf_node n"
        by (simp add: wf_slot_def)
      then have "wf_node n'"
        using "2.IH" [OF Some Child] e by simp
      then show ?thesis
        using Some Child e "2.prems" wf_compact_child [OF "2.prems", of n' c]
        by (cases b) (simp_all del: wf_node.simps)
    qed
  qed
qed

subsection \<open>Iteration\<close>

lemma iterate_Node:
  "iterate (Node w cs) =
     (case w of None \<Rightarrow> [] | Some v \<Rightarrow> [([], v)]) @ concat (map (\<lambda>(c, s). slot_entries c s) cs)"
  by (simp add: slot_entries_def)

lemma slot_entries_head: "(k, v) \<in> set (slot_entries c s) \<Longrightarrow> \<exists>l. k = c # l"
  by (auto simp: slot_entries_def split: slot.splits)

lemma sorted_concat_slots:
  assumes "sorted_wrt (<) (map fst cs)"
    and "\<And>c s. (c, s) \<in> set cs \<Longrightarrow> sorted_wrt (<) (map fst (slot_entries c s))"
  shows "sorted_wrt (<) (map fst (concat (map (\<lambda>(c, s). slot_entries c s) cs)))"
  using assms
proof (induction cs)
  case Nil
  then show ?case by simp
next
  case (Cons a cs)
  obtain c s where a: "a = (c, s)" by (cases a)
  have 1: "sorted_wrt (<) (map fst (slot_entries c s))"
    using Cons.prems(2) [of c s] a by simp
  have 2: "sorted_wrt (<) (map fst (concat (map (\<lambda>(c, s). slot_entries c s) cs)))"
    using Cons by simp
  have 3: "k < k'" if A: "(k, v) \<in> set (slot_entries c s)"
    and B: "(d, t) \<in> set cs" and C: "(k', v') \<in> set (slot_entries d t)" for k v k' v' d t
  proof -
    obtain l where "k = c # l"
      using slot_entries_head [OF A] by blast
    moreover obtain l' where "k' = d # l'"
      using slot_entries_head [OF C] by blast
    moreover have "c < d"
      using Cons.prems(1) B a by force
    ultimately show ?thesis by simp
  qed
  show ?case
    unfolding a using 1 2 3 by (fastforce simp: sorted_wrt_append)
qed

lemma sorted_slot_entries:
  assumes "\<And>n. s = Child n \<Longrightarrow> sorted_wrt (<) (map fst (iterate n))"
  shows "sorted_wrt (<) (map fst (slot_entries c s))"
proof (cases s)
  case (Inline u)
  then show ?thesis by (simp add: slot_entries_def)
next
  case (Child n)
  have "map fst (slot_entries c s) = map ((#) c) (map fst (iterate n))"
    using Child by (simp add: slot_entries_def case_prod_unfold comp_def)
  moreover have "sorted_wrt (<) (map ((#) c) ks) = sorted_wrt (<) ks" for ks :: "key list"
    by (simp add: sorted_wrt_map)
  ultimately show ?thesis
    using assms [OF Child] by (simp only:)
qed

lemma sorted_iterate: "wf_node t \<Longrightarrow> sorted_wrt (<) (map fst (iterate t))"
proof (induction t rule: iterate.induct)
  case (1 w cs)
  have s: "sorted_wrt (<) (map fst (slot_entries c s))" if "(c, s) \<in> set cs" for c s
  proof (rule sorted_slot_entries)
    fix n assume "s = Child n"
    then show "sorted_wrt (<) (map fst (iterate n))"
      using "1.IH" [OF that refl] "1.prems" that by (auto simp: wf_node_iff wf_slot_def)
  qed
  have c: "sorted_wrt (<) (map fst (concat (map (\<lambda>(c, s). slot_entries c s) cs)))"
    using sorted_concat_slots [of cs] s "1.prems" by (simp add: wf_node_iff)
  have h: "[] < k" if K: "k \<in> set (map fst (concat (map (\<lambda>(c, s). slot_entries c s) cs)))" for k
  proof -
    obtain c s v where "(k, v) \<in> set (slot_entries c s)"
      using K by force
    then show ?thesis
      using slot_entries_head by fastforce
  qed
  show ?case
  proof (cases w)
    case None
    then show ?thesis
      unfolding iterate_Node using c by simp
  next
    case (Some v)
    then have "map fst (iterate (Node w cs))
        = [] # map fst (concat (map (\<lambda>(c, s). slot_entries c s) cs))"
      unfolding iterate_Node by simp
    then show ?thesis
      using c h by (simp only: sorted_wrt.simps) blast
  qed
qed

lemma mem_slot_entries:
  "(k, v) \<in> set (slot_entries c s) \<longleftrightarrow>
     (\<exists>l. k = c # l \<and> (case s of Inline u \<Rightarrow> l = [] \<and> v = u | Child n \<Rightarrow> (l, v) \<in> set (iterate n)))"
  by (auto simp: slot_entries_def split: slot.splits)

lemma sorted_distinct_keys: "sorted_wrt (<) (ks :: char list) \<Longrightarrow> distinct ks"
  by (simp add: strict_sorted_iff)

lemma mem_iterate: "wf_node t \<Longrightarrow> (k, v) \<in> set (iterate t) \<longleftrightarrow> at t k = Some v"
proof (induction t arbitrary: k rule: iterate.induct)
  case (1 w cs)
  have d: "distinct (map fst cs)"
    using "1.prems" by (simp add: wf_node_iff sorted_distinct_keys)
  show ?case
  proof (cases k)
    case Nil
    then show ?thesis
      unfolding iterate_Node by (auto simp: mem_slot_entries split: option.splits)
  next
    case (Cons c l)
    have "(k, v) \<in> set (iterate (Node w cs))
        \<longleftrightarrow> (\<exists>s. (c, s) \<in> set cs \<and> (k, v) \<in> set (slot_entries c s))"
      unfolding iterate_Node using Cons
      by (auto simp: mem_slot_entries split: option.splits)
    also have "\<dots> \<longleftrightarrow> (\<exists>s. map_of cs c = Some s \<and> (k, v) \<in> set (slot_entries c s))"
      using d by simp
    also have "\<dots> \<longleftrightarrow> at_slot (map_of cs c) l = Some v"
    proof (cases "map_of cs c")
      case None
      then show ?thesis by (simp add: at_slot_simps)
    next
      case (Some s)
      then have m: "(c, s) \<in> set cs"
        by (rule map_of_SomeD)
      show ?thesis
      proof (cases s)
        case (Inline u)
        then show ?thesis
          using Some Cons by (auto simp: at_slot_simps mem_slot_entries)
      next
        case (Child n)
        have "wf_node n"
          using "1.prems" m Child by (auto simp: wf_node_iff wf_slot_def)
        then have "(l, v) \<in> set (iterate n) \<longleftrightarrow> at n l = Some v"
          using "1.IH" [OF m refl Child] by simp
        then show ?thesis
          using Some Cons Child by (simp add: at_slot_simps mem_slot_entries)
      qed
    qed
    finally show ?thesis
      using Cons by (simp add: at_Cons del: at.simps)
  qed
qed

lemma size_tree_iterate: "size_tree t = length (iterate t)"
proof (induction t rule: iterate.induct)
  case (1 w cs)
  have "(case s of Inline u \<Rightarrow> Suc 0 | Child n \<Rightarrow> size_tree n) = length (slot_entries c s)"
    if "(c, s) \<in> set cs" for c s
    using "1.IH" [OF that refl] by (cases s) (simp_all add: slot_entries_def)
  then have "map (\<lambda>(c, s). case s of Inline u \<Rightarrow> Suc 0 | Child n \<Rightarrow> size_tree n) cs
      = map (\<lambda>(c, s). length (slot_entries c s)) cs"
    by auto
  then have "sum_list (map (\<lambda>(c, s). case s of Inline u \<Rightarrow> Suc 0 | Child n \<Rightarrow> size_tree n) cs)
      = sum_list (map (\<lambda>(c, s). length (slot_entries c s)) cs)"
    by (rule arg_cong)
  moreover have "length (concat (map (\<lambda>(c, s). slot_entries c s) cs))
      = sum_list (map (\<lambda>(c, s). length (slot_entries c s)) cs)"
    by (simp add: length_concat comp_def case_prod_unfold)
  ultimately show ?case
    unfolding iterate_Node by (simp split: option.splits)
qed

lemma size_tree_pos: "wf_node t \<Longrightarrow> in_use t \<Longrightarrow> 0 < size_tree t"
proof (induction t rule: size_tree.induct)
  case (1 w cs)
  show ?case
  proof (cases cs)
    case Nil
    then show ?thesis
      using "1.prems"(2) by (auto simp: in_use_def)
  next
    case (Cons a cs')
    obtain c s where a: "a = (c, s)" by (cases a)
    have cs: "cs = (c, s) # cs'"
      using Cons a by simp
    have "0 < (case s of Inline u \<Rightarrow> Suc 0 | Child n \<Rightarrow> size_tree n)"
    proof (cases s)
      case (Inline u)
      then show ?thesis by simp
    next
      case (Child n)
      have "wf_node n" "in_use n"
        using "1.prems"(1) cs Child by (auto simp: wf_node_iff wf_slot_def)
      then show ?thesis
        using "1.IH" [of "(c, s)" c s n] cs Child by simp
    qed
    then show ?thesis
      using cs by simp
  qed
qed

lemma size_tree_0: "wf_node t \<Longrightarrow> size_tree t = 0 \<Longrightarrow> t = empty_tree"
proof -
  assume w: "wf_node t" and z: "size_tree t = 0"
  have "\<not> in_use t"
    using size_tree_pos [OF w] z by auto
  then show ?thesis
    by (cases t) (simp add: empty_tree_def in_use_def)
qed

subsection \<open>Reachable trees\<close>

lemma wf_empty_tree: "wf_node empty_tree"
  by (simp add: empty_tree_def)

lemma at_empty_tree: "at empty_tree k = None"
  by (cases k) (simp_all add: empty_tree_def)

lemma wf_apply_op: "wf_node t \<Longrightarrow> wf_node (apply_op t x)"
  by (cases x) (simp_all add: wf_insert_key wf_erase wf_empty_tree clear_def del: wf_node.simps)

lemma wf_foldl: "wf_node t \<Longrightarrow> wf_node (foldl apply_op t ops)"
  by (induction ops arbitrary: t) (simp_all add: wf_apply_op del: wf_node.simps)

lemma wf_run: "wf_node (run ops)"
  unfolding run_def by (rule wf_foldl [OF wf_empty_tree])

lemma at_apply_op: "at (apply_op t x) = live_op (at t) x"
  by (cases x) (auto simp: fun_eq_iff at_insert_key at_erase at_empty_tree clear_def)

lemma at_foldl: "at (foldl apply_op t ops) = foldl live_op (at t) ops"
  by (induction ops arbitrary: t) (simp_all add: at_apply_op)

lemma at_run: "at (run ops) = live ops"
proof -
  have "at empty_tree = Map.empty"
    by (simp add: fun_eq_iff at_empty_tree)
  then show ?thesis
    unfolding run_def live_def by (simp add: at_foldl)
qed

text \<open>
  The order on keys is the lexicographic order of their bytes, a proper prefix coming
  before its extensions.
\<close>

lemma key_less_iff:
  "(k :: key) < k' \<longleftrightarrow> (k, k') \<in> lexord {(c, d). (of_char c :: nat) < of_char d}"
  by (simp add: list_less_def less_char_def)

subsection \<open>The model against scenarios S1 and S3\<close>

text \<open>
  The model gives the sizes and node counts of the spec's scenarios S1 and S3, which
  src/PrefixTreeTest.cc expects too. It does not give those of S2: after the erase of
  "abc" with "ab" still stored, the rule of section 4.3 keeps the node of "ab", which has
  a value, where S2 counts one node less.
\<close>

text \<open>
  \<^verbatim>\<open>run_basic_test\<close> expects size and \<open>node_size\<close> (1, 4), (2, 4), (3, 4) after the inserts,
  (2, 4) after each erase of key2 and after the overwrite, then (1, 4) and (0, 1).
\<close>

lemma basic_test_sizes:
  "map (\<lambda>n. (size_tree (run (take n basic_test)), node_size (run (take n basic_test))))
     [0, 1, 2, 3, 4, 5, 6, 7, 8]
   = [(0, 1), (1, 4), (2, 4), (3, 4), (2, 4), (2, 4), (2, 4), (1, 4), (0, 1)]"
  by (simp add: basic_test_def run_def empty_tree_def compact_child_def clear_slot_def)

text \<open>\<^verbatim>\<open>run_types_test\<close> expects size 7 and \<open>node_size\<close> 32 after its seven inserts.\<close>

lemma types_test_sizes:
  "size_tree (run types_test) = 7 \<and> node_size (run types_test) = 32"
  by (simp add: types_test_def run_def empty_tree_def)

subsection \<open>The claims\<close>

text \<open>
  C3 (amended). In every reachable tree state \<open>node_size() \<ge> 1\<close>, and \<open>size() = 0\<close> implies
  \<open>node_size() = 1\<close>. (The converse is not claimed: see the counterexample.)
\<close>

theorem node_size_ge_1:
  "1 \<le> node_size (run ops) \<and> (size_tree (run ops) = 0 \<longrightarrow> node_size (run ops) = 1)"
proof -
  have "1 \<le> node_size t" for t
    by (cases t) simp
  moreover have "node_size (run ops) = 1" if "size_tree (run ops) = 0"
    using size_tree_0 [OF wf_run that] by (simp add: empty_tree_def)
  ultimately show ?thesis
    by blast
qed

theorem node_size_ge_1_witness:
  "1 \<le> node_size (run [Insert ''ab'' (IntV 7), Erase ''ab''])
   \<and> size_tree (run [Insert ''ab'' (IntV 7), Erase ''ab'']) = 0
   \<and> node_size (run [Insert ''ab'' (IntV 7), Erase ''ab'']) = 1"
proof -
  have "size_tree (run [Insert ''ab'' (IntV 7), Erase ''ab'']) = 0"
    by (simp add: run_def empty_tree_def compact_child_def clear_slot_def)
  then show ?thesis
    using node_size_ge_1 [of "[Insert ''ab'' (IntV 7), Erase ''ab'']"] by simp
qed

text \<open>
  C3 as stated fails: \<open>node_size() = 1\<close> would hold only if \<open>size() = 0\<close>. The tree whose
  only key is the empty string has size 1, and its one value is in the root's value slot,
  so \<open>node_size()\<close> is 1.
\<close>

theorem node_size_1_iff_empty_counterexample:
  "size_tree (run [Insert [] (StringV [])]) = 1 \<and> node_size (run [Insert [] (StringV [])]) = 1
   \<and> \<not> (node_size (run [Insert [] (StringV [])]) = 1 \<longleftrightarrow> size_tree (run [Insert [] (StringV [])]) = 0)"
  by (simp add: run_def empty_tree_def)

text \<open>
  C9. In every reachable tree state the keys that \<open>iterate()\<close> yields are in strictly
  ascending lexicographic byte order, so no key comes twice, and the pairs it yields are
  exactly the live pairs; there are \<open>size()\<close> of them.
\<close>

theorem iterate_sorted_exactly_live:
  "sorted_wrt (<) (map fst (iterate (run ops)))
   \<and> distinct (map fst (iterate (run ops)))
   \<and> set (iterate (run ops)) = {(k, v). live ops k = Some v}
   \<and> length (iterate (run ops)) = size_tree (run ops)"
proof -
  have s: "sorted_wrt (<) (map fst (iterate (run ops)))"
    by (rule sorted_iterate [OF wf_run])
  then have d: "distinct (map fst (iterate (run ops)))"
    by (simp add: strict_sorted_iff)
  have m: "set (iterate (run ops)) = {(k, v). live ops k = Some v}"
    using mem_iterate [OF wf_run, of _ _ ops] by (auto simp: at_run)
  show ?thesis
    using s d m by (simp add: size_tree_iterate)
qed

end
